theory Spec2Isabelle
  imports Main
begin

section \<open>Data model of the Sudoku screen\<close>

text \<open>
  The TypeScript types of \<^verbatim>\<open>src/screens/SudokuScreen.tsx\<close>.  A JavaScript
  \<^verbatim>\<open>number\<close> that the program can hold is an integer (a parsed digit, a loop
  counter, a key of the number pad) or \<^verbatim>\<open>NaN\<close> (what \<^verbatim>\<open>parseInt\<close>
  returns on a character that is no digit).
\<close>

datatype difficulty = Easy | Medium | Hard

datatype gameStatus = Menu | Playing | Solved

datatype jsnumber = Num int | NaN

text \<open>Strict equality \<^verbatim>\<open>===\<close> of two numbers: \<^verbatim>\<open>NaN\<close> equals nothing.\<close>

fun strictEq :: "jsnumber \<Rightarrow> jsnumber \<Rightarrow> bool" where
  "strictEq (Num a) (Num b) = (a = b)"
| "strictEq _ _ = False"

type_synonym grid = "jsnumber list list"

text \<open>
  \<^verbatim>\<open>board[r][c]\<close>: the element, or \<^verbatim>\<open>undefined\<close> (\<open>None\<close>) past the
  end of a row.  Every board of the program has nine rows of nine cells (lines 27 and
  28 build them, and nothing changes their shape), and every row index the program
  computes is below nine, so no row is ever missing: JavaScript would throw a TypeError
  there, where the model reads \<^verbatim>\<open>undefined\<close> too.  \<^verbatim>\<open>board[r][c] = v\<close> is
  only ever executed on a cell that exists.
\<close>

definition cellAt :: "'a list list \<Rightarrow> nat \<Rightarrow> nat \<Rightarrow> 'a option" where
  "cellAt board r c =
     (if r < length board \<and> c < length (board ! r) then Some (board ! r ! c) else None)"

definition setCell :: "'a list list \<Rightarrow> nat \<Rightarrow> nat \<Rightarrow> 'a \<Rightarrow> 'a list list" where
  "setCell board r c v = board[r := (board ! r)[c := v]]"

text \<open>\<^verbatim>\<open>board[r][c] === num\<close> for a number \<open>num\<close> that is an integer.\<close>

definition holds :: "grid \<Rightarrow> nat \<Rightarrow> nat \<Rightarrow> int \<Rightarrow> bool" where
  "holds board r c num = (cellAt board r c = Some (Num num))"

section \<open>The solver (lines 30 to 81)\<close>

definition isValid :: "grid \<Rightarrow> nat \<Rightarrow> nat \<Rightarrow> int \<Rightarrow> bool" where
  "isValid board row col num =
     (if list_ex (\<lambda>i. holds board row i num \<or> holds board i col num) [0..<9] then False
      else
        let boxRowStart = 3 * (row div 3);
            boxColStart = 3 * (col div 3)
        in \<not> list_ex (\<lambda>i. list_ex (\<lambda>j. holds board (boxRowStart + i) (boxColStart + j) num)
                 [0..<3]) [0..<3])"

text \<open>The inner loop of \<^verbatim>\<open>findBestCell\<close>: how many of 1..9 are valid at a cell.\<close>

definition countCandidates :: "grid \<Rightarrow> nat \<Rightarrow> nat \<Rightarrow> nat" where
  "countCandidates board r c = length (filter (\<lambda>n. isValid board r c n) [1..9])"

text \<open>The cells in the order of the two nested loops: row by row.\<close>

definition scanOrder :: "(nat \<times> nat) list" where
  "scanOrder = concat (map (\<lambda>r. map (\<lambda>c. (r, c)) [0..<9]) [0..<9])"

text \<open>
  One pass of the loop body of \<^verbatim>\<open>findBestCell\<close> on the state
  \<open>(best, minPossibilities)\<close>; \<open>None\<close> stands for \<^verbatim>\<open>bestRow === -1\<close>.
\<close>

definition findBestCell_step ::
  "grid \<Rightarrow> (nat \<times> nat) option \<times> nat \<Rightarrow> nat \<times> nat \<Rightarrow> (nat \<times> nat) option \<times> nat" where
  "findBestCell_step board st rc =
     (case rc of (r, c) \<Rightarrow>
        if holds board r c 0 then
          let count = countCandidates board r c in
            if count < snd st then (Some (r, c), count) else st
        else st)"

definition findBestCell :: "grid \<Rightarrow> (nat \<times> nat) option" where
  "findBestCell board = fst (foldl (findBestCell_step board) (None, 10) scanOrder)"

text \<open>
  \<^verbatim>\<open>solve\<close> (lines 68 to 81) mutates the board in place; the model passes the
  board through and returns it with the result.  \<open>solve_loop board r c n\<close> is the
  \<^verbatim>\<open>for\<close> loop of lines 73 to 79 from candidate \<open>n\<close> on: after a failed
  recursive call it goes on from the board that call left behind, with the cell set back
  to 0.
\<close>

function solve :: "grid \<Rightarrow> bool \<times> grid"
  and solve_loop :: "grid \<Rightarrow> nat \<Rightarrow> nat \<Rightarrow> int \<Rightarrow> bool \<times> grid" where
  "solve board =
     (case findBestCell board of
        None \<Rightarrow> (True, board)
      | Some (r, c) \<Rightarrow> solve_loop board r c 1)"
| "solve_loop board r c n =
     (if n \<le> 9 then
        (if isValid board r c n then
           (case solve (setCell board r c (Num n)) of
              (True, board') \<Rightarrow> (True, board')
            | (False, board') \<Rightarrow> solve_loop (setCell board' r c (Num 0)) r c (n + 1))
         else solve_loop board r c (n + 1))
      else (False, board))"
  by pat_completeness auto

subsection \<open>Termination of the search\<close>

text \<open>
  The empty cells of a board, in scan order, and their number: every recursive call of
  \<^verbatim>\<open>solve\<close> is on a board with one empty cell less.
\<close>

definition emptyCells :: "grid \<Rightarrow> (nat \<times> nat) list" where
  "emptyCells board = filter (\<lambda>(r, c). holds board r c 0) scanOrder"

definition emptyCount :: "grid \<Rightarrow> nat" where
  "emptyCount board = length (emptyCells board)"

lemma set_scanOrder: "set scanOrder = {(r, c). r < 9 \<and> c < 9}"
  by (auto simp: scanOrder_def)

lemma distinct_scanOrder: "distinct scanOrder"
  unfolding scanOrder_def
  by (rule distinct_concat) (auto simp: distinct_map inj_on_def)

lemma cellAt_setCell:
  "cellAt (setCell board r c v) r' c' =
     (if r' = r \<and> c' = c \<and> cellAt board r c \<noteq> None then Some v else cellAt board r' c')"
  by (auto simp: cellAt_def setCell_def nth_list_update)

lemma setCell_same: "cellAt board r c = Some v \<Longrightarrow> setCell board r c v = board"
  by (auto simp: cellAt_def setCell_def split: if_splits)

lemma setCell_setCell: "setCell (setCell board r c v) r c w = setCell board r c w"
  by (cases "r < length board") (simp_all add: setCell_def list_update_beyond)

lemma emptyCount_card:
  "emptyCount board = card {(r, c). r < 9 \<and> c < 9 \<and> holds board r c 0}"
proof -
  have "distinct (emptyCells board)"
    by (simp add: emptyCells_def distinct_scanOrder)
  moreover have "set (emptyCells board) = {(r, c). r < 9 \<and> c < 9 \<and> holds board r c 0}"
    by (auto simp: emptyCells_def set_scanOrder)
  ultimately show ?thesis
    by (metis emptyCount_def distinct_card)
qed

lemma finite_window: "finite {(r::nat, c::nat). r < 9 \<and> c < 9 \<and> P r c}"
  by (rule finite_subset [of _ "{..<9} \<times> {..<9}"]) auto

lemma emptyCount_setCell_le:
  "emptyCount (setCell board r c v) \<le> emptyCount (setCell board r c (Num 0))"
  unfolding emptyCount_card
  by (rule card_mono [OF finite_window]) (auto simp: holds_def cellAt_setCell split: if_splits)

lemma emptyCount_setCell_less:
  assumes "r < 9" "c < 9" "cellAt board r c \<noteq> None" "v \<noteq> Num 0"
  shows "emptyCount (setCell board r c v) < emptyCount (setCell board r c (Num 0))"
  unfolding emptyCount_card
proof (rule psubset_card_mono [OF finite_window])
  have "(r, c) \<in> {(r', c'). r' < 9 \<and> c' < 9 \<and> holds (setCell board r c (Num 0)) r' c' 0}"
    using assms by (simp add: holds_def cellAt_setCell)
  moreover have "(r, c) \<notin> {(r', c'). r' < 9 \<and> c' < 9 \<and> holds (setCell board r c v) r' c' 0}"
    using assms by (simp add: holds_def cellAt_setCell)
  moreover have "{(r', c'). r' < 9 \<and> c' < 9 \<and> holds (setCell board r c v) r' c' 0}
      \<subseteq> {(r', c'). r' < 9 \<and> c' < 9 \<and> holds (setCell board r c (Num 0)) r' c' 0}"
    by (auto simp: holds_def cellAt_setCell split: if_splits)
  ultimately show "{(r', c'). r' < 9 \<and> c' < 9 \<and> holds (setCell board r c v) r' c' 0}
      \<subset> {(r', c'). r' < 9 \<and> c' < 9 \<and> holds (setCell board r c (Num 0)) r' c' 0}"
    by blast
qed

text \<open>\<^verbatim>\<open>findBestCell\<close> returns an empty cell of the nine by nine window.\<close>

lemma findBestCell_fold_inv:
  assumes "\<And>rc. fst st = Some rc \<Longrightarrow> rc \<in> A \<and> holds board (fst rc) (snd rc) 0"
    and "fst (foldl (findBestCell_step board) st xs) = Some rc"
  shows "rc \<in> A \<union> set xs \<and> holds board (fst rc) (snd rc) 0"
  using assms
proof (induction xs arbitrary: st A)
  case Nil
  then show ?case by simp
next
  case (Cons x xs)
  have "rc \<in> insert x A \<union> set xs \<and> holds board (fst rc) (snd rc) 0"
  proof (rule Cons.IH [of "findBestCell_step board st x"])
    fix rc' assume "fst (findBestCell_step board st x) = Some rc'"
    then show "rc' \<in> insert x A \<and> holds board (fst rc') (snd rc') 0"
      using Cons.prems(1) [of rc']
      by (cases x) (auto simp: findBestCell_step_def Let_def split: if_splits)
  next
    show "fst (foldl (findBestCell_step board) (findBestCell_step board st x) xs) = Some rc"
      using Cons.prems(2) by simp
  qed
  then show ?case by auto
qed

lemma findBestCell_Some:
  assumes "findBestCell board = Some (r, c)"
  shows "r < 9 \<and> c < 9 \<and> holds board r c 0"
  using findBestCell_fold_inv [of "(None, 10)" "{}" board scanOrder "(r, c)"] assms
  by (auto simp: findBestCell_def set_scanOrder)

lemma isValid_not_self:
  assumes "holds board r c n" "c < 9"
  shows "\<not> isValid board r c n"
  using assms by (auto simp: isValid_def list_ex_iff)

text \<open>
  The recursion is nested: the loop goes on from the board the failed recursive call
  left behind.  On its domain a failed call has undone all its placements, which is what
  the termination proof needs.
\<close>

lemma fail_restores_dom:
  shows "solve_solve_loop_dom (Inl board) \<Longrightarrow> solve board = (False, b') \<Longrightarrow> b' = board"
    and "solve_solve_loop_dom (Inr (board, r, c, n)) \<Longrightarrow> solve_loop board r c n = (False, b')
           \<Longrightarrow> b' = board \<or> b' = setCell board r c (Num 0)"
proof (induction board and board r c n arbitrary: b' and b' rule: solve_solve_loop.pinduct)
  case (1 board)
  show ?case
  proof (cases "findBestCell board")
    case None
    with "1.prems" "1.hyps" show ?thesis by (simp add: solve.psimps)
  next
    case (Some rc)
    obtain r c where rc: "rc = (r, c)" by (cases rc)
    have "solve_loop board r c 1 = (False, b')"
      using "1.prems" "1.hyps" Some rc by (simp add: solve.psimps)
    from "1.IH" [OF Some rc [symmetric] this]
    have "b' = board \<or> b' = setCell board r c (Num 0)" .
    moreover have "setCell board r c (Num 0) = board"
      using findBestCell_Some [of board r c] Some rc
      by (simp add: holds_def setCell_same)
    ultimately show ?thesis by simp
  qed
next
  case (2 board r c n)
  note eq = solve_loop.psimps [OF "2.hyps"]
  show ?case
  proof (cases "n \<le> 9")
    case False
    with "2.prems" eq show ?thesis by simp
  next
    case le: True
    show ?thesis
    proof (cases "isValid board r c n")
      case False
      with le "2.prems" eq have "solve_loop board r c (n + 1) = (False, b')" by simp
      from "2.IH"(3) [OF le False this] show ?thesis .
    next
      case valid: True
      obtain ok b1 where s: "solve (setCell board r c (Num n)) = (ok, b1)"
        by (cases "solve (setCell board r c (Num n))")
      show ?thesis
      proof (cases ok)
        case True
        with le valid s "2.prems" eq show ?thesis by simp
      next
        case False
        with s have s': "solve (setCell board r c (Num n)) = (False, b1)" by simp
        from "2.IH"(1) [OF le valid s'] have b1: "b1 = setCell board r c (Num n)" .
        have "solve_loop (setCell b1 r c (Num 0)) r c (n + 1) = (False, b')"
          using le valid s' "2.prems" eq by simp
        from "2.IH"(2) [OF le valid s' [symmetric] refl this]
        show ?thesis by (simp add: b1 setCell_setCell)
      qed
    qed
  qed
qed

termination solve
proof (relation "inv_image (less_than <*lex*> less_than <*lex*> less_than)
    (\<lambda>x. case x of
       Inl board \<Rightarrow> (emptyCount board, 1::nat, 0::nat)
     | Inr (board, r, c, n) \<Rightarrow>
         (emptyCount (setCell board r c (Num 0))
            + (if r < 9 \<and> c < 9 \<and> cellAt board r c \<noteq> None \<and> 1 \<le> n then 0 else 1),
          0, nat (10 - n)))", goal_cases)
  case 1
  show ?case by (intro wf_inv_image wf_lex_prod wf_less_than)
next
  case (2 board rc r c)
  then have "r < 9 \<and> c < 9 \<and> holds board r c 0"
    using findBestCell_Some [of board r c] by simp
  then show ?case by (simp add: holds_def setCell_same)
next
  case (3 board r c n)
  show ?case
  proof (cases "r < 9 \<and> c < 9 \<and> cellAt board r c \<noteq> None \<and> 1 \<le> n")
    case True
    then show ?thesis
      using emptyCount_setCell_less [of r c board "Num n"] by simp
  next
    case False
    then show ?thesis
      using emptyCount_setCell_le [of board r c "Num n"] by auto
  qed
next
  case (4 board r c n ok b1)
  then have "b1 = setCell board r c (Num n)"
    using fail_restores_dom(1) [of "setCell board r c (Num n)" b1] by simp
  with 4 show ?case
    by (auto simp: setCell_setCell cellAt_setCell)
next
  case (5 board r c n)
  then show ?case by auto
qed

declare solve.simps [simp del] solve_loop.simps [simp del]

subsection \<open>The solver with a bound on the depth of its recursion\<close>

text \<open>
  The same code with a budget of nested calls of \<^verbatim>\<open>solve\<close>: \<open>None\<close> when a
  call would exceed the budget.  It serves to state how deep the recursion goes.
\<close>

function solveWithin :: "nat \<Rightarrow> grid \<Rightarrow> (bool \<times> grid) option"
  and solve_loopWithin :: "nat \<Rightarrow> grid \<Rightarrow> nat \<Rightarrow> nat \<Rightarrow> int \<Rightarrow> (bool \<times> grid) option" where
  "solveWithin depth g =
     (if depth = 0 then None
      else
        (case findBestCell g of
           None \<Rightarrow> Some (True, g)
         | Some (r, c) \<Rightarrow> solve_loopWithin (depth - 1) g r c 1))"
| "solve_loopWithin depth g r c n =
     (if n \<le> 9 then
        (if isValid g r c n then
           (case solveWithin depth (setCell g r c (Num n)) of
              None \<Rightarrow> None
            | Some (True, g') \<Rightarrow> Some (True, g')
            | Some (False, g') \<Rightarrow> solve_loopWithin depth (setCell g' r c (Num 0)) r c (n + 1))
         else solve_loopWithin depth g r c (n + 1))
      else Some (False, g))"
  by pat_completeness auto

termination
  by (relation "inv_image (less_than <*lex*> less_than <*lex*> less_than)
        (\<lambda>x. case x of
           Inl (depth, g) \<Rightarrow> (depth, 0::nat, 0::nat)
         | Inr (depth, g, r, c, n) \<Rightarrow> (depth, 1, nat (10 - n)))")
     auto

declare solveWithin.simps [simp del] solve_loopWithin.simps [simp del]

section \<open>The search as the specification words it\<close>

text \<open>
  Section 4.2 of the specification: select the empty cell with the smallest candidate
  count, ties broken by the first such cell in row-major scan order; succeed when no
  empty cell remains; otherwise try the valid candidates in ascending order, and take
  the first one whose recursive search succeeds.  A candidate that fails leaves no
  trace.
\<close>

definition specSelect :: "grid \<Rightarrow> (nat \<times> nat) option" where
  "specSelect board =
     (let empties = emptyCells board;
          count = (\<lambda>(r, c). countCandidates board r c)
      in if empties = [] then None
         else find (\<lambda>cell. count cell = min_list (map count empties)) empties)"

definition candidates :: "grid \<Rightarrow> nat \<Rightarrow> nat \<Rightarrow> int list" where
  "candidates board r c = filter (\<lambda>n. isValid board r c n) [1..9]"

fun firstSome :: "'a option list \<Rightarrow> 'a option" where
  "firstSome [] = None"
| "firstSome (None # xs) = firstSome xs"
| "firstSome (Some x # xs) = Some x"

lemma specSelect_Some:
  assumes "specSelect board = Some (r, c)"
  shows "r < 9 \<and> c < 9 \<and> holds board r c 0"
proof -
  from assms have "(r, c) \<in> set (emptyCells board)"
    by (auto simp: specSelect_def Let_def find_Some_iff in_set_conv_nth split: if_splits)
  then show ?thesis
    by (auto simp: emptyCells_def set_scanOrder)
qed

function specSolve :: "grid \<Rightarrow> grid option" where
  "specSolve board =
     (case specSelect board of
        None \<Rightarrow> Some board
      | Some (r, c) \<Rightarrow>
          firstSome (map (\<lambda>n. specSolve (setCell board r c (Num n))) (candidates board r c)))"
  by pat_completeness auto

termination
proof (relation "measure emptyCount", goal_cases)
  case 1
  show ?case by simp
next
  case (2 board rc r c n)
  then have sel: "r < 9 \<and> c < 9 \<and> holds board r c 0"
    using specSelect_Some [of board r c] by simp
  from 2 have "n \<noteq> 0" by (auto simp: candidates_def)
  with sel have "emptyCount (setCell board r c (Num n)) < emptyCount (setCell board r c (Num 0))"
    by (intro emptyCount_setCell_less) (auto simp: holds_def)
  with sel show ?case by (simp add: holds_def setCell_same)
qed

declare specSolve.simps [simp del]

text \<open>
  What \<^verbatim>\<open>solve\<close> returns when the specified search returns \<open>res\<close> on
  \<open>g\<close>.
\<close>

definition outcome :: "grid \<Rightarrow> grid option \<Rightarrow> bool \<times> grid" where
  "outcome g res = (case res of Some g' \<Rightarrow> (True, g') | None \<Rightarrow> (False, g))"

section \<open>The puzzle loader (lines 19 to 107)\<close>

definition PUZZLES :: "difficulty \<Rightarrow> string" where
  "PUZZLES d =
     (case d of
        Easy \<Rightarrow> ''..3.2.6..9..3.5..1..18.64....81.29..7.......8..67.82....26.95..8..2.3..9..5.1.3..''
      | Medium \<Rightarrow> ''2...8.3...6..7..84.3.5..2.9...1.54.8.........4.27.6...3.1..7.4.72..4..6...4.1...3''
      | Hard \<Rightarrow> ''85...24..72......9..4.........1.7..23.5...9...4...........8..7..17..........36.4.'')"

text \<open>\<^verbatim>\<open>baseString[i]\<close>: a character, or \<^verbatim>\<open>undefined\<close> past the end.\<close>

definition charAt :: "string \<Rightarrow> nat \<Rightarrow> char option" where
  "charAt str i = (if i < length str then Some (str ! i) else None)"

text \<open>
  \<^verbatim>\<open>parseInt(char, 10)\<close> on what \<^verbatim>\<open>baseString[i]\<close> gives: the value of a
  decimal digit, \<^verbatim>\<open>NaN\<close> on any other character and on \<^verbatim>\<open>undefined\<close>.
\<close>

definition parseInt10 :: "char option \<Rightarrow> jsnumber" where
  "parseInt10 ch =
     (case ch of
        None \<Rightarrow> NaN
      | Some c \<Rightarrow>
          let k = (of_char c :: nat) in
            if 48 \<le> k \<and> k \<le> 57 then Num (int k - 48) else NaN)"

text \<open>
  The type \<^verbatim>\<open>Cell\<close>; its field \<^verbatim>\<open>value\<close> (a number or \<^verbatim>\<open>null\<close>) is
  \<open>cellValue\<close> here.
\<close>

record cell =
  cellValue :: "jsnumber option"
  isGiven :: bool
  isInvalid :: bool

type_synonym board = "cell list list"

text \<open>A thrown \<^verbatim>\<open>Error\<close>, with its message.\<close>

datatype error = Error string

definition difficultyName :: "difficulty \<Rightarrow> string" where
  "difficultyName d = (case d of Easy \<Rightarrow> ''easy'' | Medium \<Rightarrow> ''medium'' | Hard \<Rightarrow> ''hard'')"

text \<open>Lines 27 and 28: the two fresh boards.\<close>

definition emptyPuzzleBoard :: board where
  "emptyPuzzleBoard =
     replicate 9 (replicate 9 \<lparr>cellValue = None, isGiven = False, isInvalid = False\<rparr>)"

definition emptySolutionBoard :: grid where
  "emptySolutionBoard = replicate 9 (replicate 9 (Num 0))"

text \<open>Lines 83 to 88: the definition is written into the numeric grid.\<close>

definition fillSolution :: "string \<Rightarrow> grid \<Rightarrow> grid" where
  "fillSolution baseString solutionBoard =
     fold (\<lambda>i sb.
             let row = i div 9; col = i mod 9; ch = charAt baseString i
             in setCell sb row col (if ch = Some CHR ''.'' then Num 0 else parseInt10 ch))
          [0..<81] solutionBoard"

text \<open>Lines 96 to 104: the given cells are written into the puzzle board.\<close>

definition fillPuzzle :: "string \<Rightarrow> board \<Rightarrow> board" where
  "fillPuzzle baseString puzzleBoard =
     fold (\<lambda>i pb.
             let row = i div 9; col = i mod 9; ch = charAt baseString i
             in if ch \<noteq> Some CHR ''.'' then
                  setCell pb row col
                    \<lparr>cellValue = Some (parseInt10 ch), isGiven = True, isInvalid = False\<rparr>
                else pb)
          [0..<81] puzzleBoard"

text \<open>
  The body of \<^verbatim>\<open>generatePuzzle\<close> after line 26, for any definition string; the
  \<^verbatim>\<open>throw\<close> of line 93 is the result \<open>Inl\<close>.
\<close>

definition generatePuzzleFrom :: "string \<Rightarrow> difficulty \<Rightarrow> error + (board \<times> grid)" where
  "generatePuzzleFrom baseString difficulty =
     (case solve (fillSolution baseString emptySolutionBoard) of
        (False, solutionBoard) \<Rightarrow>
          Inl (Error (''Failed to solve '' @ difficultyName difficulty @ '' puzzle''))
      | (True, solutionBoard) \<Rightarrow>
          Inr (fillPuzzle baseString emptyPuzzleBoard, solutionBoard))"

definition generatePuzzle :: "difficulty \<Rightarrow> error + (board \<times> grid)" where
  "generatePuzzle difficulty = generatePuzzleFrom (PUZZLES difficulty) difficulty"


section \<open>Completed Sudoku grids\<close>

text \<open>
  A completed Sudoku: nine rows of nine cells, every cell an integer from 1 to 9, and
  every row, column and 3x3 box holds each of 1 to 9 exactly once.  \<open>agrees g s\<close>:
  the grid \<open>s\<close> keeps every filled cell of \<open>g\<close>.
\<close>

definition grid9 :: "'a list list \<Rightarrow> bool" where
  "grid9 b = (length b = 9 \<and> list_all (\<lambda>row. length row = 9) b)"

definition rowCells :: "nat \<Rightarrow> (nat \<times> nat) list" where
  "rowCells r = map (\<lambda>c. (r, c)) [0..<9]"

definition colCells :: "nat \<Rightarrow> (nat \<times> nat) list" where
  "colCells c = map (\<lambda>r. (r, c)) [0..<9]"

definition boxCells :: "nat \<Rightarrow> (nat \<times> nat) list" where
  "boxCells b = map (\<lambda>k. (3 * (b div 3) + k div 3, 3 * (b mod 3) + k mod 3)) [0..<9]"

definition readCells :: "grid \<Rightarrow> (nat \<times> nat) list \<Rightarrow> jsnumber option list" where
  "readCells g cells = map (\<lambda>(r, c). cellAt g r c) cells"

definition onceEach :: "jsnumber option list \<Rightarrow> bool" where
  "onceEach unit = list_all (\<lambda>n. count_list unit (Some (Num n)) = 1) [1..9]"

definition validSolution :: "grid \<Rightarrow> bool" where
  "validSolution g =
     (grid9 g \<and>
      list_all (\<lambda>(r, c). list_ex (\<lambda>n. holds g r c n) [1..9]) scanOrder \<and>
      list_all (\<lambda>i. onceEach (readCells g (rowCells i)) \<and>
                     onceEach (readCells g (colCells i)) \<and>
                     onceEach (readCells g (boxCells i))) [0..<9])"

definition agrees :: "grid \<Rightarrow> grid \<Rightarrow> bool" where
  "agrees g s = list_all (\<lambda>(r, c). holds g r c 0 \<or> cellAt g r c = cellAt s r c) scanOrder"

section \<open>The session controller (lines 109 to 237 and the click handlers)\<close>

record position =
  row :: nat
  col :: nat

record session =
  status :: gameStatus
  difficulty :: difficulty
  board :: "board option"
  solution :: "grid option"
  selectedCell :: "position option"
  timer :: nat
  errors :: nat


text \<open>
  \<^verbatim>\<open>startGame\<close> (lines 119 to 133) with the loader run on a given definition string:
  the \<^verbatim>\<open>catch\<close> block handles the loader's error, so the handler always returns.
\<close>

definition startGameFrom :: "string \<Rightarrow> difficulty \<Rightarrow> session \<Rightarrow> session" where
  "startGameFrom baseString diff s =
     (case generatePuzzleFrom baseString diff of
        Inr (puzzle, sol) \<Rightarrow>
          s\<lparr>difficulty := diff, board := Some puzzle, solution := Some sol,
            selectedCell := None, errors := 0, timer := 0, status := Playing\<rparr>
      | Inl error \<Rightarrow> s\<lparr>status := Menu\<rparr>)"


text \<open>
  \<^verbatim>\<open>checkWin\<close> (lines 146 to 155), a closure over the \<^verbatim>\<open>solution\<close> state.  Where
  the JavaScript would throw a TypeError (no solution, a missing cell) the handler that
  called it is aborted before \<^verbatim>\<open>setStatus('solved')\<close>, which is what the result
  \<open>False\<close> leads to as well.
\<close>

definition checkWin :: "grid option \<Rightarrow> board \<Rightarrow> bool" where
  "checkWin sol currentBoard =
     list_all (\<lambda>(r, c).
        case cellAt currentBoard r c of
          None \<Rightarrow> False
        | Some cl \<Rightarrow>
            (case cellValue cl of
               None \<Rightarrow> False
             | Some v \<Rightarrow>
                 (case sol of
                    None \<Rightarrow> False
                  | Some sg \<Rightarrow> (case cellAt sg r c of None \<Rightarrow> False | Some w \<Rightarrow> strictEq v w))))
       scanOrder"

text \<open>
  \<^verbatim>\<open>JSON.parse(JSON.stringify(board))\<close>: a deep copy, in which \<^verbatim>\<open>NaN\<close> has
  become \<^verbatim>\<open>null\<close>.
\<close>

definition jsonCopy :: "board \<Rightarrow> board" where
  "jsonCopy b =
     map (map (\<lambda>cl. cl\<lparr>cellValue := (case cellValue cl of Some NaN \<Rightarrow> None | v \<Rightarrow> v)\<rparr>)) b"

text \<open>
  \<^verbatim>\<open>solution && solution[row][col] !== num\<close>; \<^verbatim>\<open>undefined\<close> is not equal to any
  number.
\<close>

definition mismatch :: "grid option \<Rightarrow> nat \<Rightarrow> nat \<Rightarrow> jsnumber \<Rightarrow> bool" where
  "mismatch sol r c num =
     (case sol of
        None \<Rightarrow> False
      | Some sg \<Rightarrow> (case cellAt sg r c of None \<Rightarrow> True | Some w \<Rightarrow> \<not> strictEq w num))"

text \<open>
  \<^verbatim>\<open>board.flat().findIndex(c => c.value === null && !c.isGiven)\<close>; \<open>None\<close> stands
  for the result -1.
\<close>

definition firstEmptyIndex :: "board \<Rightarrow> nat option" where
  "firstEmptyIndex b =
     (let flat = concat b
      in find (\<lambda>i. cellValue (flat ! i) = None \<and> \<not> isGiven (flat ! i)) [0..<length flat])"

text \<open>\<^verbatim>\<open>setBoard(newBoard); if (checkWin(newBoard)) setStatus('solved')\<close>.\<close>

definition commitBoard :: "grid option \<Rightarrow> board \<Rightarrow> session \<Rightarrow> session" where
  "commitBoard sol newBoard s =
     (if checkWin sol newBoard then s\<lparr>board := Some newBoard, status := Solved\<rparr>
      else s\<lparr>board := Some newBoard\<rparr>)"

text \<open>
  The callback of lines 166 to 180, run by \<^verbatim>\<open>setTimeout(..., 0)\<close> with the board and
  the solution its closure captured.  A TypeError on a missing cell aborts it before any
  state is written.
\<close>

definition deferredWrite ::
  "board \<Rightarrow> grid option \<Rightarrow> nat \<Rightarrow> nat \<Rightarrow> jsnumber \<Rightarrow> session \<Rightarrow> session" where
  "deferredWrite capturedBoard capturedSolution r c num s =
     (let newBoard = jsonCopy capturedBoard in
      case cellAt newBoard r c of
        None \<Rightarrow> s
      | Some currentCell \<Rightarrow>
          if mismatch capturedSolution r c num then
            commitBoard capturedSolution
              (setCell newBoard r c (currentCell\<lparr>cellValue := Some num, isInvalid := True\<rparr>))
              (s\<lparr>errors := errors s + 1\<rparr>)
          else
            commitBoard capturedSolution
              (setCell newBoard r c (currentCell\<lparr>cellValue := Some num, isInvalid := False\<rparr>))
              s)"

text \<open>
  \<^verbatim>\<open>handleNumberInput\<close> (lines 157 to 213).  Events are handled one at a time, and the
  callback of \<^verbatim>\<open>setTimeout(..., 0)\<close> is taken to run before the next event: the branch
  without a selected cell returns the state after its callback.
\<close>

definition handleNumberInput :: "jsnumber option \<Rightarrow> session \<Rightarrow> session" where
  "handleNumberInput num s =
     (case board s of
        None \<Rightarrow> s
      | Some b \<Rightarrow>
          if status s \<noteq> Playing then s
          else
            (case selectedCell s of
               None \<Rightarrow>
                 (case firstEmptyIndex b of
                    None \<Rightarrow> s
                  | Some firstEmpty \<Rightarrow>
                      (case num of
                         None \<Rightarrow> s
                       | Some n \<Rightarrow>
                           let r = firstEmpty div 9; c = firstEmpty mod 9
                           in deferredWrite b (solution s) r c n
                                (s\<lparr>selectedCell := Some \<lparr>row = r, col = c\<rparr>\<rparr>)))
             | Some pos \<Rightarrow>
                 (case cellAt b (row pos) (col pos) of
                    None \<Rightarrow> s
                  | Some cl \<Rightarrow>
                      if isGiven cl then s
                      else
                        let newBoard = jsonCopy b in
                        (case cellAt newBoard (row pos) (col pos) of
                           None \<Rightarrow> s
                         | Some currentCell \<Rightarrow>
                             (case num of
                                None \<Rightarrow>
                                  commitBoard (solution s)
                                    (setCell newBoard (row pos) (col pos)
                                       (currentCell\<lparr>cellValue := None, isInvalid := False\<rparr>))
                                    s
                              | Some n \<Rightarrow>
                                  let wasInvalid = isInvalid currentCell in
                                  if mismatch (solution s) (row pos) (col pos) n then
                                    commitBoard (solution s)
                                      (setCell newBoard (row pos) (col pos)
                                         (currentCell\<lparr>cellValue := Some n, isInvalid := True\<rparr>))
                                      (if \<not> wasInvalid then s\<lparr>errors := errors s + 1\<rparr> else s)
                                  else
                                    commitBoard (solution s)
                                      (setCell newBoard (row pos) (col pos)
                                         (currentCell\<lparr>cellValue := Some n, isInvalid := False\<rparr>))
                                      s)))))"

text \<open>
  \<^verbatim>\<open>KeyboardEvent.key\<close>: the name of a named key, or the character the key produces.
  \<^verbatim>\<open>parseInt\<close> is \<^verbatim>\<open>NaN\<close> on every key name.
\<close>

datatype key = ArrowUp | ArrowDown | ArrowLeft | ArrowRight | Backspace | Delete
  | Printable char | OtherNamed

definition handleKeyDown :: "key \<Rightarrow> session \<Rightarrow> session" where
  "handleKeyDown k s =
     (if status s \<noteq> Playing then s
      else
        (case selectedCell s of
           None \<Rightarrow> s
         | Some pos \<Rightarrow>
             (case k of
                ArrowUp \<Rightarrow> s\<lparr>selectedCell := Some (pos\<lparr>row := max 0 (row pos - 1)\<rparr>)\<rparr>
              | ArrowDown \<Rightarrow> s\<lparr>selectedCell := Some (pos\<lparr>row := min 8 (row pos + 1)\<rparr>)\<rparr>
              | ArrowLeft \<Rightarrow> s\<lparr>selectedCell := Some (pos\<lparr>col := max 0 (col pos - 1)\<rparr>)\<rparr>
              | ArrowRight \<Rightarrow> s\<lparr>selectedCell := Some (pos\<lparr>col := min 8 (col pos + 1)\<rparr>)\<rparr>
              | Backspace \<Rightarrow> handleNumberInput None s
              | Delete \<Rightarrow> handleNumberInput None s
              | Printable ch \<Rightarrow>
                  (case parseInt10 (Some ch) of
                     NaN \<Rightarrow> s
                   | Num n \<Rightarrow> if ch \<noteq> CHR ''0'' then handleNumberInput (Some (Num n)) s else s)
              | OtherNamed \<Rightarrow> s)))"


text \<open>
  A key of the number pad (lines 384 to 394), \<open>i\<close> from 0 to 8; the button is disabled
  unless the status is \<^verbatim>\<open>playing\<close>.  Without a selected cell the handler selects the
  first empty cell and defers \<^verbatim>\<open>handleNumberInput\<close>, whose closure still has no
  selection and therefore takes its own branch for that case, with the same cell.
\<close>

definition numberPadClick :: "nat \<Rightarrow> session \<Rightarrow> session" where
  "numberPadClick i s =
     (if status s \<noteq> Playing then s
      else
        (case selectedCell s of
           None \<Rightarrow>
             (case board s of
                None \<Rightarrow> s
              | Some b \<Rightarrow>
                  (case firstEmptyIndex b of
                     None \<Rightarrow> s
                   | Some firstEmpty \<Rightarrow> handleNumberInput (Some (Num (int i + 1))) s))
         | Some pos \<Rightarrow> handleNumberInput (Some (Num (int i + 1))) s))"

definition eraseClick :: "session \<Rightarrow> session" where
  "eraseClick s =
     (if status s \<noteq> Playing \<or> selectedCell s = None then s else handleNumberInput None s)"







text \<open>
  The invariant of the session: the board and the solution are set together, the board
  has nine rows of nine cells, no cell holds \<^verbatim>\<open>NaN\<close>, and the flag
  \<^verbatim>\<open>isInvalid\<close> of every cell is fresh: it is set exactly when the cell holds a
  value that is not the solution's, and never on a given cell.
\<close>

definition flagFresh :: "cell \<Rightarrow> jsnumber \<Rightarrow> bool" where
  "flagFresh cl w =
     ((isInvalid cl \<longleftrightarrow> (\<exists>v. cellValue cl = Some v \<and> \<not> strictEq v w)) \<and>
      (isGiven cl \<longrightarrow> \<not> isInvalid cl))"

definition boardFresh :: "board \<Rightarrow> grid \<Rightarrow> bool" where
  "boardFresh b sg =
     (grid9 b \<and>
      (\<forall>r<9. \<forall>c<9. \<exists>cl w. cellAt b r c = Some cl \<and> cellAt sg r c = Some w \<and>
           cellValue cl \<noteq> Some NaN \<and> flagFresh cl w))"

definition sessionInv :: "session \<Rightarrow> bool" where
  "sessionInv s =
     (case (board s, solution s) of
        (None, None) \<Rightarrow> True
      | (Some b, Some sg) \<Rightarrow> boardFresh b sg
      | _ \<Rightarrow> False)"

section \<open>Concrete boards and sessions\<close>

text \<open>
  A board whose only empty cell, the top left one, has no candidate (its row holds
  every digit but 8, and 8 stands in its column), and the definition string of that
  board.
\<close>

definition stuckBoard :: grid where
  "stuckBoard = map (map Num)
     [[0, 4, 3, 9, 2, 1, 6, 5, 7], [9, 6, 7, 3, 4, 5, 8, 2, 1],
      [2, 5, 1, 8, 7, 6, 4, 9, 3], [5, 4, 8, 1, 3, 2, 9, 7, 6],
      [7, 2, 9, 5, 6, 4, 1, 3, 8], [1, 3, 6, 7, 9, 8, 2, 4, 5],
      [3, 7, 2, 6, 8, 9, 5, 1, 4], [8, 1, 4, 2, 5, 3, 7, 6, 9],
      [6, 9, 5, 4, 1, 7, 3, 8, 2]]"

definition stuckDefinition :: string where
  "stuckDefinition =
     ''.43921657967345821251876493548132976729564138136798245372689514814253769695417382''"

text \<open>
  A completed grid for each of the three puzzle definitions.
\<close>

definition easySolution :: grid where
  "easySolution = map (map Num)
     [[4, 8, 3, 9, 2, 1, 6, 5, 7], [9, 6, 7, 3, 4, 5, 8, 2, 1],
      [2, 5, 1, 8, 7, 6, 4, 9, 3], [5, 4, 8, 1, 3, 2, 9, 7, 6],
      [7, 2, 9, 5, 6, 4, 1, 3, 8], [1, 3, 6, 7, 9, 8, 2, 4, 5],
      [3, 7, 2, 6, 8, 9, 5, 1, 4], [8, 1, 4, 2, 5, 3, 7, 6, 9],
      [6, 9, 5, 4, 1, 7, 3, 8, 2]]"

definition mediumSolution :: grid where
  "mediumSolution = map (map Num)
     [[2, 4, 5, 9, 8, 1, 3, 7, 6], [1, 6, 9, 2, 7, 3, 5, 8, 4],
      [8, 3, 7, 5, 6, 4, 2, 1, 9], [9, 7, 6, 1, 2, 5, 4, 3, 8],
      [5, 1, 3, 4, 9, 8, 6, 2, 7], [4, 8, 2, 7, 3, 6, 9, 5, 1],
      [3, 9, 1, 6, 5, 7, 8, 4, 2], [7, 2, 8, 3, 4, 9, 1, 6, 5],
      [6, 5, 4, 8, 1, 2, 7, 9, 3]]"

definition hardSolution :: grid where
  "hardSolution = map (map Num)
     [[8, 5, 9, 6, 1, 2, 4, 3, 7], [7, 2, 3, 8, 5, 4, 1, 6, 9],
      [1, 6, 4, 3, 7, 9, 5, 2, 8], [9, 8, 6, 1, 4, 7, 3, 5, 2],
      [3, 7, 5, 2, 6, 8, 9, 1, 4], [2, 4, 1, 5, 9, 3, 7, 8, 6],
      [4, 3, 2, 9, 8, 1, 6, 7, 5], [6, 1, 7, 4, 2, 5, 8, 9, 3],
      [5, 9, 8, 7, 3, 6, 2, 4, 1]]"

definition knownSolution :: "difficulty \<Rightarrow> grid" where
  "knownSolution d = (case d of Easy \<Rightarrow> easySolution | Medium \<Rightarrow> mediumSolution | Hard \<Rightarrow> hardSolution)"

text \<open>
  Sessions of the easy puzzle: at the start with the empty top left cell selected,
  with a wrong 9 entered there, and with every cell but that one filled in correctly.
\<close>

definition demoSession :: session where
  "demoSession =
     \<lparr>status = Playing, difficulty = Easy,
      board = Some (fillPuzzle (PUZZLES Easy) emptyPuzzleBoard),
      solution = Some easySolution,
      selectedCell = Some \<lparr>row = 0, col = 0\<rparr>, timer = 0, errors = 0\<rparr>"



section \<open>Notions of the proofs\<close>

text \<open>
  The step of \<^verbatim>\<open>findBestCell\<close> on the empty cells alone; two cells that share a
  row, a column or a box; grids whose nine by nine cells all hold a digit from 1 to 9
  (\<open>full\<close>) or from 0 to 9 (\<open>partial\<close>); grids in which no two cells of a unit
  hold the same digit other than 0.
\<close>

definition bestStep :: "('a \<Rightarrow> nat) \<Rightarrow> 'a option \<times> nat \<Rightarrow> 'a \<Rightarrow> 'a option \<times> nat" where
  "bestStep f st x = (if f x < snd st then (Some x, f x) else st)"

definition sameUnit :: "nat \<Rightarrow> nat \<Rightarrow> nat \<Rightarrow> nat \<Rightarrow> bool" where
  "sameUnit r c r' c' = (r' = r \<or> c' = c \<or> (r' div 3 = r div 3 \<and> c' div 3 = c div 3))"

definition full :: "grid \<Rightarrow> bool" where
  "full g = (\<forall>r<9. \<forall>c<9. \<exists>n. 1 \<le> n \<and> n \<le> 9 \<and> holds g r c n)"

definition partial :: "grid \<Rightarrow> bool" where
  "partial g = (\<forall>r<9. \<forall>c<9. \<exists>n. 0 \<le> n \<and> n \<le> 9 \<and> holds g r c n)"

definition consistent :: "grid \<Rightarrow> bool" where
  "consistent g =
     (\<forall>r<9. \<forall>c<9. \<forall>r'<9. \<forall>c'<9. \<forall>n.
        n \<noteq> 0 \<longrightarrow> (r, c) \<noteq> (r', c') \<longrightarrow> sameUnit r c r' c' \<longrightarrow> holds g r c n
          \<longrightarrow> \<not> holds g r' c' n)"

text \<open>A unit: nine distinct cells of the window, any two in a common row, column or box.\<close>

definition isUnit :: "(nat \<times> nat) list \<Rightarrow> bool" where
  "isUnit u = (distinct u \<and> length u = 9 \<and> (\<forall>(r, c)\<in>set u. r < 9 \<and> c < 9) \<and>
     (\<forall>(r, c)\<in>set u. \<forall>(r', c')\<in>set u. sameUnit r c r' c'))"

text \<open>
  What \<^verbatim>\<open>JSON\<close> copying does to one cell, what \<^verbatim>\<open>checkWin\<close> asks of one
  cell, and the relation of the puzzle board to the parsed grid that is evaluated for
  the three definitions.
\<close>

definition scrub :: "cell \<Rightarrow> cell" where
  "scrub cl = cl\<lparr>cellValue := (case cellValue cl of Some NaN \<Rightarrow> None | v \<Rightarrow> v)\<rparr>"



section \<open>The solver selects and searches as specified\<close>

lemma findBestCell_step_filter:
  "foldl (findBestCell_step g) st xs =
   foldl (bestStep (\<lambda>(r, c). countCandidates g r c)) st (filter (\<lambda>(r, c). holds g r c 0) xs)"
  by (induction xs arbitrary: st)
     (auto simp: findBestCell_step_def bestStep_def Let_def)

lemma min_list_Cons_less:
  assumes "xs \<noteq> []"
  shows "min_list (x # xs) = min x (min_list xs)"
  using assms by (cases xs) auto

lemma min_list_le: "x \<in> set xs \<Longrightarrow> min_list xs \<le> (x::nat)"
  by (metis min_list_Min Min_le List.finite_set empty_iff list.set(1))

lemma min_list_in: "xs \<noteq> [] \<Longrightarrow> min_list xs \<in> set (xs :: nat list)"
  by (metis min_list_Min Min_in List.finite_set set_empty)

lemma foldl_bestStep:
  "foldl (bestStep f) (b, m) xs =
     (if \<exists>x\<in>set xs. f x < m
      then (find (\<lambda>x. f x = min_list (map f xs)) xs, min_list (map f xs))
      else (b, m))"
proof (induction xs arbitrary: b m)
  case Nil
  show ?case by simp
next
  case (Cons x xs)
  show ?case
  proof (cases "f x < m")
    case True
    show ?thesis
    proof (cases "\<exists>y\<in>set xs. f y < f x")
      case ex: True
      then have ne: "xs \<noteq> []" by auto
      from ex obtain y where y: "y \<in> set xs" "f y < f x" by auto
      then have "min_list (map f xs) \<le> f y" by (intro min_list_le) simp
      with y have lt: "min_list (map f xs) < f x" by simp
      moreover have "min_list (f x # map f xs) = min (f x) (min_list (map f xs))"
        by (rule min_list_Cons_less) (simp add: ne)
      ultimately have M: "min_list (map f (x # xs)) = min_list (map f xs)"
        by (simp add: min_def del: min_list.simps)
      show ?thesis
        using True ex lt M Cons.IH [of "Some x" "f x"]
        by (auto simp: bestStep_def)
    next
      case nex: False
      have M: "min_list (map f (x # xs)) = f x"
      proof (cases "xs = []")
        case True
        then show ?thesis by simp
      next
        case False
        then have "min_list (map f xs) \<in> set (map f xs)" by (intro min_list_in) simp
        with nex have "f x \<le> min_list (map f xs)" by auto
        moreover have "min_list (f x # map f xs) = min (f x) (min_list (map f xs))"
          by (rule min_list_Cons_less) (simp add: False)
        ultimately show ?thesis by (simp add: min_def del: min_list.simps)
      qed
      show ?thesis
        using True nex M Cons.IH [of "Some x" "f x"]
        by (auto simp: bestStep_def)
    qed
  next
    case False
    show ?thesis
    proof (cases "\<exists>y\<in>set xs. f y < m")
      case ex: True
      then have ne: "xs \<noteq> []" by auto
      from ex obtain y where y: "y \<in> set xs" "f y < m" by auto
      then have "min_list (map f xs) \<le> f y" by (intro min_list_le) simp
      with y False have lt: "min_list (map f xs) < f x" by simp
      moreover have "min_list (f x # map f xs) = min (f x) (min_list (map f xs))"
        by (rule min_list_Cons_less) (simp add: ne)
      ultimately have M: "min_list (map f (x # xs)) = min_list (map f xs)"
        by (simp add: min_def del: min_list.simps)
      show ?thesis
        using False ex lt M Cons.IH [of b m]
        by (auto simp: bestStep_def)
    next
      case nex: False
      show ?thesis
        using False nex Cons.IH [of b m]
        by (auto simp: bestStep_def)
    qed
  qed
qed

lemma countCandidates_le: "countCandidates g r c \<le> 9"
proof -
  have "length (filter (\<lambda>n. isValid g r c n) [1..9]) \<le> length [1..9::int]"
    by (rule length_filter_le)
  then show ?thesis by (simp add: countCandidates_def)
qed

lemma findBestCell_specSelect: "findBestCell g = specSelect g"
proof (cases "emptyCells g = []")
  case True
  then show ?thesis
    by (simp add: findBestCell_def specSelect_def findBestCell_step_filter emptyCells_def)
next
  case False
  then obtain x where x: "x \<in> set (emptyCells g)" by (cases "emptyCells g") auto
  obtain r c where "x = (r, c)" by (cases x)
  with x have "\<exists>x\<in>set (emptyCells g). (\<lambda>(r, c). countCandidates g r c) x < 10"
    using countCandidates_le [of g r c] by (intro bexI [of _ x]) auto
  then show ?thesis
    using False
    by (simp add: findBestCell_def specSelect_def findBestCell_step_filter
        emptyCells_def [symmetric] foldl_bestStep Let_def)
qed

lemma solve_fail_restores:
  shows "solve g = (False, b') \<Longrightarrow> b' = g"
    and "solve_loop g r c n = (False, b')
           \<Longrightarrow> b' = g \<or> b' = setCell g r c (Num 0)"
proof (induction g and g r c n arbitrary: b' and b' rule: solve_solve_loop.induct)
  case (1 g)
  show ?case
  proof (cases "findBestCell g")
    case None
    with "1.prems" show ?thesis by (simp add: solve.simps)
  next
    case (Some rc)
    obtain r c where rc: "rc = (r, c)" by (cases rc)
    have "solve_loop g r c 1 = (False, b')"
      using "1.prems" Some rc by (simp add: solve.simps)
    from "1.IH" [OF Some rc [symmetric] this]
    have "b' = g \<or> b' = setCell g r c (Num 0)" .
    moreover have "setCell g r c (Num 0) = g"
      using findBestCell_Some [of g r c] Some rc
      by (simp add: holds_def setCell_same)
    ultimately show ?thesis by simp
  qed
next
  case (2 g r c n)
  note eq = solve_loop.simps [of g r c n]
  show ?case
  proof (cases "n \<le> 9")
    case False
    with "2.prems" eq show ?thesis by simp
  next
    case le: True
    show ?thesis
    proof (cases "isValid g r c n")
      case False
      with le "2.prems" eq have "solve_loop g r c (n + 1) = (False, b')" by simp
      from "2.IH"(3) [OF le False this] show ?thesis .
    next
      case valid: True
      obtain ok b1 where s: "solve (setCell g r c (Num n)) = (ok, b1)"
        by (cases "solve (setCell g r c (Num n))")
      show ?thesis
      proof (cases ok)
        case True
        with le valid s "2.prems" eq show ?thesis by simp
      next
        case False
        with s have s': "solve (setCell g r c (Num n)) = (False, b1)" by simp
        from "2.IH"(1) [OF le valid s'] have b1: "b1 = setCell g r c (Num n)" .
        have "solve_loop (setCell b1 r c (Num 0)) r c (n + 1) = (False, b')"
          using le valid s' "2.prems" eq by simp
        from "2.IH"(2) [OF le valid s' [symmetric] refl this]
        show ?thesis by (simp add: b1 setCell_setCell)
      qed
    qed
  qed
qed

lemma solve_loop_unfold:
  assumes "holds g r c 0"
  shows "solve_loop g r c n =
     (if n \<le> 9 then
        (if isValid g r c n then
           (case solve (setCell g r c (Num n)) of
              (True, g') \<Rightarrow> (True, g')
            | (False, g') \<Rightarrow> solve_loop g r c (n + 1))
         else solve_loop g r c (n + 1))
      else (False, g))"
proof -
  have undo: "setCell (setCell g r c (Num n)) r c (Num 0) = g"
    using assms by (simp add: setCell_setCell setCell_same holds_def)
  obtain ok b1 where s: "solve (setCell g r c (Num n)) = (ok, b1)"
    by (cases "solve (setCell g r c (Num n))")
  show ?thesis
  proof (cases ok)
    case True
    with s show ?thesis by (subst solve_loop.simps) simp
  next
    case False
    with s have "b1 = setCell g r c (Num n)"
      using solve_fail_restores(1) by simp
    with s False undo show ?thesis by (subst solve_loop.simps) simp
  qed
qed

lemma solve_loop_refines:
  assumes empty: "holds g r c 0"
    and rec: "\<And>k. k \<in> set (candidates g r c) \<Longrightarrow>
        solve (setCell g r c (Num k)) =
          outcome (setCell g r c (Num k)) (specSolve (setCell g r c (Num k)))"
    and "1 \<le> n"
  shows "solve_loop g r c n =
     outcome g (firstSome (map (\<lambda>k. specSolve (setCell g r c (Num k)))
        (filter (\<lambda>k. isValid g r c k) [n..9])))"
  using \<open>1 \<le> n\<close>
proof (induction "nat (10 - n)" arbitrary: n)
  case 0
  then have "\<not> n \<le> 9" by simp
  then show ?case
    by (subst solve_loop_unfold [OF empty]) (simp add: outcome_def)
next
  case (Suc d)
  then have le: "n \<le> 9" by simp
  then have up: "[n..9] = n # [n + 1..9]" by (simp add: upto_rec1)
  from Suc have IH: "solve_loop g r c (n + 1) =
     outcome g (firstSome (map (\<lambda>k. specSolve (setCell g r c (Num k)))
        (filter (\<lambda>k. isValid g r c k) [n + 1..9])))"
    using Suc.prems by (intro Suc.hyps(1)) simp_all
  show ?case
  proof (cases "isValid g r c n")
    case False
    with le IH show ?thesis
      by (subst solve_loop_unfold [OF empty]) (simp add: up)
  next
    case True
    with le Suc.prems have "n \<in> set (candidates g r c)"
      by (simp add: candidates_def)
    from rec [OF this] le True IH show ?thesis
      by (subst solve_loop_unfold [OF empty])
         (auto simp: up outcome_def split: option.splits)
  qed
qed

lemma solve_refines: "solve g = outcome g (specSolve g)"
proof (induction g rule: specSolve.induct)
  case (1 g)
  show ?case
  proof (cases "specSelect g")
    case None
    then show ?thesis
      by (simp add: solve.simps specSolve.simps findBestCell_specSelect outcome_def)
  next
    case (Some rc)
    obtain r c where rc: "rc = (r, c)" by (cases rc)
    have empty: "holds g r c 0"
      using specSelect_Some [of g r c] Some rc by simp
    have "solve_loop g r c 1 =
      outcome g (firstSome (map (\<lambda>k. specSolve (setCell g r c (Num k)))
        (filter (\<lambda>k. isValid g r c k) [1..9])))"
      by (rule solve_loop_refines [OF empty]) (simp_all add: "1.IH" [OF Some rc [symmetric]])
    then show ?thesis
      using Some rc
      by (simp add: solve.simps specSolve.simps [of g] findBestCell_specSelect candidates_def)
  qed
qed



text \<open>
  Claim C10.  When \<^verbatim>\<open>solve\<close> returns false, the board is the one it was called
  with: every placement of the failed search has been reverted.
\<close>

theorem solve_failure_leaves_board:
  "solve g = (False, g') \<Longrightarrow> g' = g"
  by (rule solve_fail_restores(1))

theorem solve_failure_leaves_board_witness:
  "fst (solve stuckBoard) = False \<and> snd (solve stuckBoard) = stuckBoard"
proof -
  have failed: "fst (solve stuckBoard) = False"
    by code_simp
  then have "solve stuckBoard = (False, snd (solve stuckBoard))"
    by (simp add: prod_eq_iff)
  from solve_failure_leaves_board [OF this] failed show ?thesis
    by simp
qed

section \<open>The depth of the recursion\<close>

lemma emptyCount_place:
  assumes "r < 9" "c < 9" "holds g r c 0" "n \<noteq> 0"
  shows "emptyCount (setCell g r c (Num n)) < emptyCount g"
proof -
  have "emptyCount (setCell g r c (Num n)) < emptyCount (setCell g r c (Num 0))"
    using assms by (intro emptyCount_setCell_less) (auto simp: holds_def)
  with assms(3) show ?thesis by (simp add: holds_def setCell_same)
qed

lemma solveWithin_enough:
  shows "emptyCount g < depth \<Longrightarrow> solveWithin depth g = Some (solve g)"
    and "r < 9 \<Longrightarrow> c < 9 \<Longrightarrow> holds g r c 0 \<Longrightarrow> 1 \<le> n \<Longrightarrow> emptyCount g \<le> depth \<Longrightarrow>
           solve_loopWithin depth g r c n = Some (solve_loop g r c n)"
proof (induction g and g r c n arbitrary: depth and depth rule: solve_solve_loop.induct)
  case (1 g)
  show ?case
  proof (cases "findBestCell g")
    case None
    with "1.prems" show ?thesis by (simp add: solveWithin.simps solve.simps)
  next
    case (Some rc)
    obtain r c where rc: "rc = (r, c)" by (cases rc)
    from Some rc have sel: "r < 9" "c < 9" "holds g r c 0"
      using findBestCell_Some [of g r c] by simp_all
    from "1.prems" have "emptyCount g \<le> depth - 1" by simp
    from "1.IH" [OF Some rc [symmetric] sel _ this]
    have "solve_loopWithin (depth - 1) g r c 1 = Some (solve_loop g r c 1)" by simp
    with Some rc "1.prems" show ?thesis by (simp add: solveWithin.simps solve.simps)
  qed
next
  case (2 g r c n)
  note sel = "2.prems"(1,2,3)
  show ?case
  proof (cases "n \<le> 9")
    case False
    then show ?thesis by (simp add: solve_loopWithin.simps solve_loop.simps)
  next
    case le: True
    show ?thesis
    proof (cases "isValid g r c n")
      case False
      from "2.IH"(3) [OF le False sel _ "2.prems"(5)] "2.prems"(4)
      have "solve_loopWithin depth g r c (n + 1) = Some (solve_loop g r c (n + 1))" by simp
      with le False show ?thesis
        by (simp add: solve_loopWithin.simps [of depth g r c n] solve_loop.simps [of g r c n])
    next
      case valid: True
      from "2.prems"(4) have "n \<noteq> 0" by simp
      from emptyCount_place [OF sel this] "2.prems"(5)
      have "emptyCount (setCell g r c (Num n)) < depth" by simp
      from "2.IH"(1) [OF le valid this]
      have rec: "solveWithin depth (setCell g r c (Num n)) = Some (solve (setCell g r c (Num n)))" .
      obtain ok g1 where s: "solve (setCell g r c (Num n)) = (ok, g1)"
        by (cases "solve (setCell g r c (Num n))")
      show ?thesis
      proof (cases ok)
        case True
        with le valid rec s show ?thesis
          by (simp add: solve_loopWithin.simps [of depth g r c n] solve_loop.simps [of g r c n])
      next
        case False
        with s have s': "solve (setCell g r c (Num n)) = (False, g1)" by simp
        from solve_fail_restores(1) [OF s'] have g1: "g1 = setCell g r c (Num n)" .
        have undo: "setCell g1 r c (Num 0) = g"
          using sel(3) by (simp add: g1 setCell_setCell setCell_same holds_def)
        from "2.IH"(2) [OF le valid s' [symmetric] refl, of depth] sel "2.prems"(4,5)
        have "solve_loopWithin depth g r c (n + 1) = Some (solve_loop g r c (n + 1))"
          by (simp add: undo)
        with le valid rec s' undo show ?thesis
          by (simp add: solve_loopWithin.simps [of depth g r c n] solve_loop.simps [of g r c n])
      qed
    qed
  qed
qed

lemma emptyCount_le_81: "emptyCount g \<le> 81"
proof -
  have "length (emptyCells g) \<le> length scanOrder"
    unfolding emptyCells_def by (rule length_filter_le)
  also have "length scanOrder = 81" by code_simp
  finally show ?thesis by (simp add: emptyCount_def)
qed

text \<open>
  Claim C8.  The solver terminates on every grid.  \<^verbatim>\<open>solve\<close> is a total
  function: its termination is proved above, by the number of empty cells.  Run with a
  budget of nested calls of one more than the number of empty cells, which is 82 at
  most, it stays within the budget and returns the result of \<^verbatim>\<open>solve\<close>, true or
  false: the depth of the recursion is bounded by the number of empty cells, at most
  81.
\<close>

theorem solve_terminates_within_depth:
  "solveWithin (Suc (emptyCount g)) g = Some (solve g) \<and> emptyCount g \<le> 81 \<and>
   solveWithin 82 g = Some (solve g)"
proof -
  have "emptyCount g < 82" using emptyCount_le_81 [of g] by simp
  then show ?thesis
    using emptyCount_le_81 [of g] by (simp add: solveWithin_enough(1))
qed

theorem solve_terminates_within_depth_witness:
  "solveWithin (Suc (emptyCount stuckBoard)) stuckBoard = Some (solve stuckBoard) \<and>
   emptyCount stuckBoard \<le> 81 \<and> solveWithin 82 stuckBoard = Some (solve stuckBoard)"
  by (rule solve_terminates_within_depth)

section \<open>The solver completes every solvable grid\<close>

lemma holds_unique: "holds g r c n \<Longrightarrow> holds g r c m \<Longrightarrow> n = m"
  by (simp add: holds_def)

lemma holds_setCell:
  "cellAt g r c \<noteq> None \<Longrightarrow>
   holds (setCell g r c (Num n)) r' c' m = (if r' = r \<and> c' = c then m = n else holds g r' c' m)"
  by (auto simp: holds_def cellAt_setCell)

lemma box_coords:
  fixes r r' :: nat
  assumes "r' div 3 = r div 3"
  shows "3 * (r div 3) + r' mod 3 = r'"
  using assms by presburger

lemma isValid_iff:
  assumes "r < 9" "c < 9"
  shows "isValid g r c n \<longleftrightarrow> (\<forall>r'<9. \<forall>c'<9. sameUnit r c r' c' \<longrightarrow> \<not> holds g r' c' n)"
proof
  assume v: "isValid g r c n"
  show "\<forall>r'<9. \<forall>c'<9. sameUnit r c r' c' \<longrightarrow> \<not> holds g r' c' n"
  proof (intro allI impI notI)
    fix r' c' assume b: "r' < 9" "c' < 9" and su: "sameUnit r c r' c'" and h: "holds g r' c' n"
    from v have rowcol: "\<And>i. i < 9 \<Longrightarrow> \<not> holds g r i n \<and> \<not> holds g i c n"
      by (auto simp: isValid_def list_ex_iff split: if_splits)
    from v have box: "\<And>i j. i < 3 \<Longrightarrow> j < 3 \<Longrightarrow>
        \<not> holds g (3 * (r div 3) + i) (3 * (c div 3) + j) n"
      by (auto simp: isValid_def list_ex_iff Let_def split: if_splits)
    from su consider "r' = r" | "c' = c" | "r' div 3 = r div 3 \<and> c' div 3 = c div 3"
      by (auto simp: sameUnit_def)
    then show False
    proof cases
      case 1
      with rowcol [of c'] b h show False by simp
    next
      case 2
      with rowcol [of r'] b h show False by simp
    next
      case 3
      with box [of "r' mod 3" "c' mod 3"] h show False
        by (simp add: box_coords)
    qed
  qed
next
  assume a: "\<forall>r'<9. \<forall>c'<9. sameUnit r c r' c' \<longrightarrow> \<not> holds g r' c' n"
  have "\<And>i. i < 9 \<Longrightarrow> \<not> holds g r i n"
    using a assms by (auto simp: sameUnit_def)
  moreover have "\<And>i. i < 9 \<Longrightarrow> \<not> holds g i c n"
    using a assms by (auto simp: sameUnit_def)
  moreover have "\<And>i j. i < 3 \<Longrightarrow> j < 3 \<Longrightarrow> \<not> holds g (3 * (r div 3) + i) (3 * (c div 3) + j) n"
  proof -
    fix i j :: nat assume ij: "i < 3" "j < 3"
    have "3 * (r div 3) + i < 9" "3 * (c div 3) + j < 9"
      using assms ij by presburger+
    moreover have "(3 * (r div 3) + i) div 3 = r div 3" "(3 * (c div 3) + j) div 3 = c div 3"
      using ij by presburger+
    ultimately show "\<not> holds g (3 * (r div 3) + i) (3 * (c div 3) + j) n"
      using a by (simp add: sameUnit_def)
  qed
  ultimately show "isValid g r c n"
    by (auto simp: isValid_def list_ex_iff Let_def)
qed

lemma sameUnit_sym: "sameUnit r c r' c' \<Longrightarrow> sameUnit r' c' r c"
  by (auto simp: sameUnit_def)

lemma consistent_setCell:
  assumes cons: "consistent g" and win: "r < 9" "c < 9" and empty: "holds g r c 0"
    and valid: "isValid g r c n"
  shows "consistent (setCell g r c (Num n))"
proof -
  have some: "cellAt g r c \<noteq> None" using empty by (simp add: holds_def)
  have free: "\<And>r' c'. r' < 9 \<Longrightarrow> c' < 9 \<Longrightarrow> sameUnit r c r' c' \<Longrightarrow> \<not> holds g r' c' n"
    using valid win by (simp add: isValid_iff)
  show ?thesis
    unfolding consistent_def
  proof (intro allI impI)
    fix r1 c1 r2 c2 m
    assume b: "r1 < 9" "c1 < 9" "r2 < 9" "c2 < 9" and m: "m \<noteq> 0"
      and ne: "(r1, c1) \<noteq> (r2, c2)" and su: "sameUnit r1 c1 r2 c2"
      and h1: "holds (setCell g r c (Num n)) r1 c1 m"
    show "\<not> holds (setCell g r c (Num n)) r2 c2 m"
    proof
      assume h2: "holds (setCell g r c (Num n)) r2 c2 m"
      show False
      proof (cases "(r1, c1) = (r, c)")
        case True
        with h1 have "m = n" by (simp add: holds_setCell [OF some])
        moreover from True ne h2 have "holds g r2 c2 m"
          by (auto simp: holds_setCell [OF some] split: if_splits)
        ultimately show False using free [of r2 c2] b su True by simp
      next
        case False
        with h1 have g1: "holds g r1 c1 m"
          by (auto simp: holds_setCell [OF some] split: if_splits)
        show False
        proof (cases "(r2, c2) = (r, c)")
          case True
          with h2 have "m = n" by (simp add: holds_setCell [OF some])
          with g1 free [of r1 c1] b sameUnit_sym [OF su] True show False by simp
        next
          case False
          with h2 have "holds g r2 c2 m"
            by (auto simp: holds_setCell [OF some] split: if_splits)
          with cons b m ne su g1 show False
            unfolding consistent_def by blast
        qed
      qed
    qed
  qed
qed

lemma partial_setCell:
  assumes "partial g" "1 \<le> n" "n \<le> 9" "holds g r c 0"
  shows "partial (setCell g r c (Num n))"
proof -
  have some: "cellAt g r c \<noteq> None" using assms(4) by (simp add: holds_def)
  show ?thesis
    unfolding partial_def
  proof (intro allI impI)
    fix r' c' :: nat assume "r' < 9" "c' < 9"
    with assms(1) obtain k where "0 \<le> k" "k \<le> 9" "holds g r' c' k"
      unfolding partial_def by blast
    with assms(2,3) show "\<exists>k. 0 \<le> k \<and> k \<le> 9 \<and> holds (setCell g r c (Num n)) r' c' k"
      by (cases "r' = r \<and> c' = c") (auto simp: holds_setCell [OF some])
  qed
qed

lemma firstSome_Some:
  "firstSome xs = Some y \<Longrightarrow> Some y \<in> set xs"
  by (induction xs rule: firstSome.induct) auto

lemma firstSome_None: "firstSome xs = None \<longleftrightarrow> (\<forall>x\<in>set xs. x = None)"
  by (induction xs rule: firstSome.induct) auto

lemma specSelect_None:
  assumes "specSelect g = None" "r < 9" "c < 9"
  shows "\<not> holds g r c 0"
proof -
  have "emptyCells g = []"
  proof (rule ccontr)
    assume ne: "emptyCells g \<noteq> []"
    let ?f = "\<lambda>(r, c). countCandidates g r c"
    have "min_list (map ?f (emptyCells g)) \<in> set (map ?f (emptyCells g))"
      using ne by (intro min_list_in) simp
    then obtain x where "x \<in> set (emptyCells g)" "?f x = min_list (map ?f (emptyCells g))"
      by auto
    then have "find (\<lambda>cell. ?f cell = min_list (map ?f (emptyCells g))) (emptyCells g) \<noteq> None"
      unfolding find_None_iff by blast
    with assms(1) ne show False by (simp add: specSelect_def Let_def)
  qed
  then have "(r, c) \<notin> set (emptyCells g)" by simp
  with assms(2,3) show ?thesis by (simp add: emptyCells_def set_scanOrder)
qed

lemma map_length_setCell: "map length (setCell g r c v) = map length g"
proof (cases "r < length g")
  case True
  then have "(map length g)[r := length (g ! r)] = map length g"
    by (metis list_update_id nth_map)
  then show ?thesis by (simp add: setCell_def map_update)
next
  case False
  then show ?thesis by (simp add: setCell_def list_update_beyond)
qed

lemma agrees_iff:
  "agrees g s \<longleftrightarrow> (\<forall>r<9. \<forall>c<9. holds g r c 0 \<or> cellAt g r c = cellAt s r c)"
  by (auto simp: agrees_def list_all_iff set_scanOrder)

lemma specSolve_sound:
  "partial g \<Longrightarrow> consistent g \<Longrightarrow> specSolve g = Some g' \<Longrightarrow>
     full g' \<and> consistent g' \<and> agrees g g' \<and> map length g' = map length g"
proof (induction g arbitrary: g' rule: specSolve.induct)
  case (1 gr)
  show ?case
  proof (cases "specSelect gr")
    case None
    with "1.prems"(3) have eq: "g' = gr" by (simp add: specSolve.simps)
    have "full gr"
      unfolding full_def
    proof (intro allI impI)
      fix r c :: nat assume b: "r < 9" "c < 9"
      with "1.prems"(1) obtain n where n: "0 \<le> n" "n \<le> 9" "holds gr r c n"
        unfolding partial_def by blast
      moreover from specSelect_None [OF None b] n have "n \<noteq> 0" by auto
      ultimately show "\<exists>n. 1 \<le> n \<and> n \<le> 9 \<and> holds gr r c n"
        by (intro exI [of _ n]) simp
    qed
    with "1.prems"(2) eq show ?thesis by (simp add: agrees_iff)
  next
    case (Some rc)
    obtain r c where rc: "rc = (r, c)" by (cases rc)
    from Some rc have sel: "r < 9" "c < 9" "holds gr r c 0"
      using specSelect_Some [of gr r c] by simp_all
    have some: "cellAt gr r c \<noteq> None" using sel(3) by (simp add: holds_def)
    from "1.prems"(3) Some rc
    have "firstSome (map (\<lambda>n. specSolve (setCell gr r c (Num n))) (candidates gr r c))
            = Some g'"
      by (simp add: specSolve.simps [of gr])
    from firstSome_Some [OF this] obtain k
      where k: "k \<in> set (candidates gr r c)" "specSolve (setCell gr r c (Num k)) = Some g'"
      by auto
    from k(1) have kv: "1 \<le> k" "k \<le> 9" "isValid gr r c k"
      by (auto simp: candidates_def)
    have "partial (setCell gr r c (Num k))"
      using "1.prems"(1) kv sel by (intro partial_setCell) simp_all
    moreover have "consistent (setCell gr r c (Num k))"
      using "1.prems"(2) kv sel by (intro consistent_setCell) simp_all
    ultimately have res: "full g'" "consistent g'" "agrees (setCell gr r c (Num k)) g'"
        "map length g' = map length (setCell gr r c (Num k))"
      using "1.IH" [OF Some rc [symmetric] k(1) _ _ k(2)] by simp_all
    have "agrees gr g'"
      unfolding agrees_iff
    proof (intro allI impI)
      fix r' c' :: nat assume "r' < 9" "c' < 9"
      with res(3) have "holds (setCell gr r c (Num k)) r' c' 0 \<or>
          cellAt (setCell gr r c (Num k)) r' c' = cellAt g' r' c'"
        unfolding agrees_iff by blast
      with sel(3) kv(1) show "holds gr r' c' 0 \<or> cellAt gr r' c' = cellAt g' r' c'"
        by (cases "r' = r \<and> c' = c") (auto simp: holds_setCell [OF some] cellAt_setCell)
    qed
    moreover have "map length (setCell gr r c (Num k)) = map length gr"
      by (rule map_length_setCell)
    ultimately show ?thesis using res by simp
  qed
qed

lemma specSolve_complete:
  "agrees g s \<Longrightarrow> full s \<Longrightarrow> consistent s \<Longrightarrow> specSolve g \<noteq> None"
proof (induction g rule: specSolve.induct)
  case (1 gr)
  show ?case
  proof (cases "specSelect gr")
    case None
    then show ?thesis by (simp add: specSolve.simps)
  next
    case (Some rc)
    obtain r c where rc: "rc = (r, c)" by (cases rc)
    from Some rc have sel: "r < 9" "c < 9" "holds gr r c 0"
      using specSelect_Some [of gr r c] by simp_all
    have some: "cellAt gr r c \<noteq> None" using sel(3) by (simp add: holds_def)
    from "1.prems"(2) sel obtain k where k: "1 \<le> k" "k \<le> 9" "holds s r c k"
      unfolding full_def by blast
    have valid: "isValid gr r c k"
      unfolding isValid_iff [OF sel(1,2)]
    proof (intro allI impI notI)
      fix r' c' assume b: "r' < 9" "c' < 9" and su: "sameUnit r c r' c'"
        and h: "holds gr r' c' k"
      from h sel(3) k(1) have ne: "(r, c) \<noteq> (r', c')" by (auto simp: holds_def)
      from "1.prems"(1) b have "holds gr r' c' 0 \<or> cellAt gr r' c' = cellAt s r' c'"
        unfolding agrees_iff by blast
      with h k(1) have "holds s r' c' k" by (auto simp: holds_def)
      with "1.prems"(3) sel b k ne su show False
        unfolding consistent_def by (metis not_one_le_zero)
    qed
    with k have cand: "k \<in> set (candidates gr r c)" by (simp add: candidates_def)
    have "agrees (setCell gr r c (Num k)) s"
      unfolding agrees_iff
    proof (intro allI impI)
      fix r' c' :: nat assume "r' < 9" "c' < 9"
      with "1.prems"(1) have "holds gr r' c' 0 \<or> cellAt gr r' c' = cellAt s r' c'"
        unfolding agrees_iff by blast
      with k(3) show "holds (setCell gr r c (Num k)) r' c' 0 \<or>
          cellAt (setCell gr r c (Num k)) r' c' = cellAt s r' c'"
        by (cases "r' = r \<and> c' = c") (auto simp: holds_setCell [OF some] cellAt_setCell holds_def)
    qed
    from "1.IH" [OF Some rc [symmetric] cand this "1.prems"(2,3)]
    have "specSolve (setCell gr r c (Num k)) \<noteq> None" .
    with cand have "firstSome (map (\<lambda>n. specSolve (setCell gr r c (Num n)))
        (candidates gr r c)) \<noteq> None"
      by (auto simp: firstSome_None)
    with Some rc show ?thesis by (simp add: specSolve.simps [of gr])
  qed
qed

lemma set_rowCells: "set (rowCells i) = {(r, c). r = i \<and> c < 9}"
  by (auto simp: rowCells_def)

lemma set_colCells: "set (colCells i) = {(r, c). c = i \<and> r < 9}"
  by (auto simp: colCells_def)

lemma box_index_bound: "3 * (a mod 3) + b mod 3 < (9::nat)"
proof -
  have "a mod 3 < 3" "b mod 3 < 3" by simp_all
  then show ?thesis by linarith
qed

lemma box_row_bound: "b < 9 \<Longrightarrow> 3 * (b div 3) + k mod 3 < (9::nat)"
proof -
  assume "b < 9"
  then have "b div 3 < 3" by simp
  moreover have "k mod 3 < 3" by simp
  ultimately show ?thesis by linarith
qed

lemma set_boxCells:
  assumes "b < 9"
  shows "set (boxCells b) = {(r, c). r < 9 \<and> c < 9 \<and> r div 3 = b div 3 \<and> c div 3 = b mod 3}"
proof (intro equalityI subsetI)
  fix p assume "p \<in> set (boxCells b)"
  then obtain k where k: "k < 9" "p = (3 * (b div 3) + k div 3, 3 * (b mod 3) + k mod 3)"
    by (auto simp: boxCells_def)
  from k(1) have "k div 3 < 3" by simp
  moreover from assms have "b div 3 < 3" by simp
  ultimately have "3 * (b div 3) + k div 3 < 9" by linarith
  moreover have "3 * (b mod 3) + k mod 3 < 9" by (rule box_index_bound)
  moreover from \<open>k div 3 < 3\<close> have "(3 * (b div 3) + k div 3) div 3 = b div 3" by simp
  moreover have "(3 * (b mod 3) + k mod 3) div 3 = b mod 3" by simp
  ultimately show "p \<in> {(r, c). r < 9 \<and> c < 9 \<and> r div 3 = b div 3 \<and> c div 3 = b mod 3}"
    using k(2) by simp
next
  fix p assume "p \<in> {(r, c). r < 9 \<and> c < 9 \<and> r div 3 = b div 3 \<and> c div 3 = b mod 3}"
  then obtain r c where p: "p = (r, c)" "r < 9" "c < 9" "r div 3 = b div 3" "c div 3 = b mod 3"
    by auto
  let ?k = "3 * (r mod 3) + c mod 3"
  have kb: "?k < 9" by (rule box_index_bound)
  have "?k div 3 = r mod 3" "?k mod 3 = c mod 3" by simp_all
  then have "3 * (b div 3) + ?k div 3 = r" "3 * (b mod 3) + ?k mod 3 = c"
    using p(4,5) [symmetric] by simp_all
  then have "p = (\<lambda>k. (3 * (b div 3) + k div 3, 3 * (b mod 3) + k mod 3)) ?k"
    using p(1) by simp
  moreover have "?k \<in> set [0..<9]" using kb by simp
  ultimately show "p \<in> set (boxCells b)"
    unfolding boxCells_def set_map by (rule image_eqI)
qed

lemma distinct_rowCells: "distinct (rowCells i)"
  by (simp add: rowCells_def distinct_map inj_on_def)

lemma distinct_colCells: "distinct (colCells i)"
  by (simp add: colCells_def distinct_map inj_on_def)

lemma distinct_boxCells: "distinct (boxCells b)"
proof -
  have "inj_on (\<lambda>k. (3 * (b div 3) + k div 3, 3 * (b mod 3) + k mod 3)) (set [0..<9])"
  proof (rule inj_onI)
    fix x y :: nat
    assume "(3 * (b div 3) + x div 3, 3 * (b mod 3) + x mod 3)
          = (3 * (b div 3) + y div 3, 3 * (b mod 3) + y mod 3)"
    then have "x div 3 = y div 3" "x mod 3 = y mod 3" by simp_all
    then show "x = y" by (metis div_mult_mod_eq)
  qed
  then show ?thesis by (simp add: boxCells_def distinct_map)
qed

lemma length_units: "length (rowCells i) = 9" "length (colCells i) = 9" "length (boxCells i) = 9"
  by (simp_all add: rowCells_def colCells_def boxCells_def)

lemma isUnit_rowCells: "i < 9 \<Longrightarrow> isUnit (rowCells i)"
  by (auto simp: isUnit_def distinct_rowCells length_units set_rowCells sameUnit_def)

lemma isUnit_colCells: "i < 9 \<Longrightarrow> isUnit (colCells i)"
  by (auto simp: isUnit_def distinct_colCells length_units set_colCells sameUnit_def)

lemma isUnit_boxCells: "i < 9 \<Longrightarrow> isUnit (boxCells i)"
  by (auto simp: isUnit_def distinct_boxCells length_units set_boxCells sameUnit_def)

lemma common_unit:
  assumes "r < 9" "c < 9" "r' < 9" "c' < 9" "sameUnit r c r' c'"
  shows "\<exists>i<9. ((r, c) \<in> set (rowCells i) \<and> (r', c') \<in> set (rowCells i)) \<or>
                ((r, c) \<in> set (colCells i) \<and> (r', c') \<in> set (colCells i)) \<or>
                ((r, c) \<in> set (boxCells i) \<and> (r', c') \<in> set (boxCells i))"
proof -
  from assms(5) consider "r' = r" | "c' = c" | "r' div 3 = r div 3 \<and> c' div 3 = c div 3"
    by (auto simp: sameUnit_def)
  then show ?thesis
  proof cases
    case 1
    with assms show ?thesis by (intro exI [of _ r]) (simp add: set_rowCells)
  next
    case 2
    with assms show ?thesis by (intro exI [of _ c]) (simp add: set_colCells)
  next
    case 3
    let ?b = "3 * (r div 3) + c div 3"
    from assms(1,2) have "r div 3 < 3" "c div 3 < 3" by simp_all
    then have b: "?b < 9" by linarith
    from \<open>c div 3 < 3\<close> have "?b div 3 = r div 3" "?b mod 3 = c div 3" by simp_all
    with 3 assms b show ?thesis
      by (intro exI [of _ ?b]) (simp add: set_boxCells)
  qed
qed

lemma count_list_distinct: "distinct xs \<Longrightarrow> x \<in> set xs \<Longrightarrow> count_list xs x = 1"
  by (induction xs) (auto simp: count_list_0_iff)

lemma count_list_map_ge1: "p \<in> set u \<Longrightarrow> 1 \<le> count_list (map f u) (f p)"
  by (induction u) auto

lemma count_list_map_ge2:
  "distinct u \<Longrightarrow> p \<in> set u \<Longrightarrow> q \<in> set u \<Longrightarrow> p \<noteq> q \<Longrightarrow> f p = f q \<Longrightarrow>
     2 \<le> count_list (map f u) (f p)"
proof (induction u)
  case Nil
  then show ?case by simp
next
  case (Cons a u)
  show ?case
  proof (cases "a = p")
    case True
    with Cons.prems have "q \<in> set u" by auto
    from count_list_map_ge1 [OF this, of f] Cons.prems(5) True show ?thesis by simp
  next
    case False
    show ?thesis
    proof (cases "a = q")
      case True
      with Cons.prems have "p \<in> set u" by auto
      from count_list_map_ge1 [OF this, of f] Cons.prems(5) True show ?thesis by simp
    next
      case aq: False
      with False Cons.prems have "2 \<le> count_list (map f u) (f p)"
        by (intro Cons.IH) auto
      then show ?thesis by simp
    qed
  qed
qed

lemma onceEach_iff:
  "onceEach unit \<longleftrightarrow> (\<forall>n. 1 \<le> n \<and> n \<le> 9 \<longrightarrow> count_list unit (Some (Num n)) = 1)"
  by (auto simp: onceEach_def list_all_iff)

lemma unit_onceEach:
  assumes f: "full g" and cons: "consistent g" and u: "isUnit u"
  shows "onceEach (readCells g u)"
proof -
  let ?f = "\<lambda>(r, c). cellAt g r c"
  let ?D = "(\<lambda>n. Some (Num n)) ` {1..9::int}"
  have win: "\<And>r c. (r, c) \<in> set u \<Longrightarrow> r < 9 \<and> c < 9"
    using u by (auto simp: isUnit_def)
  have su: "\<And>r c r' c'. (r, c) \<in> set u \<Longrightarrow> (r', c') \<in> set u \<Longrightarrow> sameUnit r c r' c'"
    using u unfolding isUnit_def by blast
  have inj: "inj_on ?f (set u)"
  proof (rule inj_onI)
    fix p q assume pq: "p \<in> set u" "q \<in> set u" "?f p = ?f q"
    obtain r c where p: "p = (r, c)" by (cases p)
    obtain r' c' where q: "q = (r', c')" by (cases q)
    from win pq p q have b: "r < 9" "c < 9" "r' < 9" "c' < 9" by auto
    from f b obtain n where n: "1 \<le> n" "holds g r c n" unfolding full_def by blast
    with pq(3) p q have "holds g r' c' n" by (simp add: holds_def)
    show "p = q"
    proof (rule ccontr)
      assume "p \<noteq> q"
      with p q have "(r, c) \<noteq> (r', c')" by simp
      moreover have "sameUnit r c r' c'" using su pq p q by simp
      moreover from n have "n \<noteq> 0" by simp
      ultimately show False
        using cons b n(2) \<open>holds g r' c' n\<close> unfolding consistent_def by blast
    qed
  qed
  have dist: "distinct (readCells g u)"
    using u inj by (simp add: readCells_def distinct_map isUnit_def)
  have len: "length (readCells g u) = 9"
    using u by (simp add: readCells_def isUnit_def)
  have sub: "set (readCells g u) \<subseteq> ?D"
  proof
    fix v assume "v \<in> set (readCells g u)"
    then obtain r c where rc: "(r, c) \<in> set u" "v = cellAt g r c"
      by (auto simp: readCells_def)
    with win f obtain n where "1 \<le> n" "n \<le> 9" "holds g r c n"
      unfolding full_def by blast
    with rc(2) show "v \<in> ?D" by (auto simp: holds_def)
  qed
  have "card ?D = 9"
  proof -
    have "inj_on (\<lambda>n. Some (Num n)) {1..9::int}" by (simp add: inj_on_def)
    then have "card ?D = card {1..9::int}" by (rule card_image)
    then show ?thesis by simp
  qed
  moreover have "card (set (readCells g u)) = 9"
    using dist len by (simp add: distinct_card)
  ultimately have eq: "set (readCells g u) = ?D"
    using sub by (intro card_subset_eq) simp_all
  show ?thesis
    unfolding onceEach_iff
  proof (intro allI impI)
    fix n :: int assume "1 \<le> n \<and> n \<le> 9"
    then have "Some (Num n) \<in> set (readCells g u)" unfolding eq by simp
    with dist show "count_list (readCells g u) (Some (Num n)) = 1"
      by (rule count_list_distinct)
  qed
qed

lemma grid9_iff: "grid9 b \<longleftrightarrow> map length b = replicate 9 9"
proof
  assume "grid9 b"
  then show "map length b = replicate 9 9"
    by (auto simp: grid9_def list_all_iff intro!: nth_equalityI)
next
  assume a: "map length b = replicate 9 9"
  then have "length (map length b) = 9" by simp
  then have l: "length b = 9" by simp
  have "\<And>row. row \<in> set b \<Longrightarrow> length row = 9"
  proof -
    fix row assume "row \<in> set b"
    then have "length row \<in> set (map length b)" by simp
    with a show "length row = 9" by simp
  qed
  with l show "grid9 b" by (simp add: grid9_def list_all_iff)
qed

lemma full_iff_digits:
  "full g \<longleftrightarrow> list_all (\<lambda>(r, c). list_ex (\<lambda>n. holds g r c n) [1..9]) scanOrder"
proof -
  have "\<And>r c. (\<exists>n. 1 \<le> n \<and> n \<le> 9 \<and> holds g r c n) \<longleftrightarrow> (\<exists>n\<in>{1..9}. holds g r c n)"
    by auto
  then show ?thesis
    by (simp add: full_def list_all_iff list_ex_iff set_scanOrder)
qed

lemma validSolution_intro:
  assumes "grid9 g" "full g" "consistent g"
  shows "validSolution g"
proof -
  have "\<And>i. i < 9 \<Longrightarrow> onceEach (readCells g (rowCells i)) \<and>
      onceEach (readCells g (colCells i)) \<and> onceEach (readCells g (boxCells i))"
    using assms(2,3) by (simp add: unit_onceEach isUnit_rowCells isUnit_colCells isUnit_boxCells)
  then show ?thesis
    using assms(1,2) by (simp add: validSolution_def full_iff_digits list_all_iff)
qed

lemma validSolution_full: "validSolution g \<Longrightarrow> full g"
  by (simp add: validSolution_def full_iff_digits)

lemma validSolution_consistent:
  assumes v: "validSolution g"
  shows "consistent g"
  unfolding consistent_def
proof (intro allI impI notI)
  fix r c r' c' n
  assume b: "r < 9" "c < 9" "r' < 9" "c' < 9" and n0: "n \<noteq> 0" and ne: "(r, c) \<noteq> (r', c')"
    and su: "sameUnit r c r' c'" and h: "holds g r c n" and h': "holds g r' c' n"
  from validSolution_full [OF v] b obtain m where "1 \<le> m" "m \<le> 9" "holds g r c m"
    unfolding full_def by blast
  with h have n: "1 \<le> n" "n \<le> 9" using holds_unique by blast+
  let ?f = "\<lambda>(r, c). cellAt g r c"
  have once: "\<And>i. i < 9 \<Longrightarrow> onceEach (readCells g (rowCells i)) \<and>
      onceEach (readCells g (colCells i)) \<and> onceEach (readCells g (boxCells i))"
    using v by (simp add: validSolution_def list_all_iff)
  have eqf: "?f (r, c) = ?f (r', c')" "?f (r, c) = Some (Num n)"
    using h h' by (simp_all add: holds_def)
  have dup: "\<And>u. distinct u \<Longrightarrow> (r, c) \<in> set u \<Longrightarrow> (r', c') \<in> set u \<Longrightarrow>
      \<not> onceEach (readCells g u)"
  proof -
    fix u assume "distinct u" "(r, c) \<in> set u" "(r', c') \<in> set u"
    from count_list_map_ge2 [OF this ne eqf(1)]
    have "2 \<le> count_list (readCells g u) (Some (Num n))"
      using eqf(2) by (simp add: readCells_def)
    with n show "\<not> onceEach (readCells g u)"
      unfolding onceEach_iff by (intro notI) (metis numeral_le_one_iff semiring_norm(69))
  qed
  from common_unit [OF b su] obtain i where i: "i < 9"
    "((r, c) \<in> set (rowCells i) \<and> (r', c') \<in> set (rowCells i)) \<or>
     ((r, c) \<in> set (colCells i) \<and> (r', c') \<in> set (colCells i)) \<or>
     ((r, c) \<in> set (boxCells i) \<and> (r', c') \<in> set (boxCells i))"
    by blast
  with once [OF i(1)] dup [OF distinct_rowCells] dup [OF distinct_colCells]
    dup [OF distinct_boxCells]
  show False by blast
qed

lemma solve_finds_solution:
  assumes shape: "grid9 g" and sol: "validSolution s" and ag: "agrees g s"
  shows "\<exists>g'. solve g = (True, g') \<and> validSolution g' \<and> agrees g g'"
proof -
  have fs: "full s" and cs: "consistent s"
    using sol by (simp_all add: validSolution_full validSolution_consistent)
  have cell: "\<And>r c. r < 9 \<Longrightarrow> c < 9 \<Longrightarrow> holds g r c 0 \<or> cellAt g r c = cellAt s r c"
    using ag unfolding agrees_iff by blast
  have pg: "partial g"
    unfolding partial_def
  proof (intro allI impI)
    fix r c :: nat assume b: "r < 9" "c < 9"
    from fs b obtain n where n: "1 \<le> n" "n \<le> 9" "holds s r c n" unfolding full_def by blast
    from cell [OF b] show "\<exists>n. 0 \<le> n \<and> n \<le> 9 \<and> holds g r c n"
    proof
      assume "holds g r c 0"
      then show ?thesis by (intro exI [of _ 0]) simp
    next
      assume "cellAt g r c = cellAt s r c"
      with n show ?thesis by (intro exI [of _ n]) (simp add: holds_def)
    qed
  qed
  have cg: "consistent g"
    unfolding consistent_def
  proof (intro allI impI notI)
    fix r c r' c' n
    assume b: "r < 9" "c < 9" "r' < 9" "c' < 9" and n0: "n \<noteq> 0" and ne: "(r, c) \<noteq> (r', c')"
      and su: "sameUnit r c r' c'" and h: "holds g r c n" and h': "holds g r' c' n"
    from cell [OF b(1,2)] h n0 have "holds s r c n" by (auto simp: holds_def)
    moreover from cell [OF b(3,4)] h' n0 have "holds s r' c' n" by (auto simp: holds_def)
    ultimately show False
      using cs b n0 ne su unfolding consistent_def by blast
  qed
  from specSolve_complete [OF ag fs cs] obtain g' where g': "specSolve g = Some g'"
    by auto
  from specSolve_sound [OF pg cg g']
  have res: "full g'" "consistent g'" "agrees g g'" "map length g' = map length g"
    by simp_all
  from res(4) shape have "grid9 g'" by (simp add: grid9_iff)
  with res have "validSolution g'" by (intro validSolution_intro)
  moreover have "solve g = (True, g')"
    using solve_refines [of g] g' by (simp add: outcome_def)
  ultimately show ?thesis using res(3) by blast
qed

section \<open>The loader\<close>

lemma knownSolution_valid: "validSolution (knownSolution d)"
proof (cases d)
  case Easy
  have "validSolution (knownSolution Easy)" by code_simp
  with Easy show ?thesis by simp
next
  case Medium
  have "validSolution (knownSolution Medium)" by code_simp
  with Medium show ?thesis by simp
next
  case Hard
  have "validSolution (knownSolution Hard)" by code_simp
  with Hard show ?thesis by simp
qed

lemma parsed_shape: "grid9 (fillSolution (PUZZLES d) emptySolutionBoard)"
proof (cases d)
  case Easy
  have "grid9 (fillSolution (PUZZLES Easy) emptySolutionBoard)" by code_simp
  with Easy show ?thesis by simp
next
  case Medium
  have "grid9 (fillSolution (PUZZLES Medium) emptySolutionBoard)" by code_simp
  with Medium show ?thesis by simp
next
  case Hard
  have "grid9 (fillSolution (PUZZLES Hard) emptySolutionBoard)" by code_simp
  with Hard show ?thesis by simp
qed

lemma parsed_agrees: "agrees (fillSolution (PUZZLES d) emptySolutionBoard) (knownSolution d)"
proof (cases d)
  case Easy
  have "agrees (fillSolution (PUZZLES Easy) emptySolutionBoard) (knownSolution Easy)"
    by code_simp
  with Easy show ?thesis by simp
next
  case Medium
  have "agrees (fillSolution (PUZZLES Medium) emptySolutionBoard) (knownSolution Medium)"
    by code_simp
  with Medium show ?thesis by simp
next
  case Hard
  have "agrees (fillSolution (PUZZLES Hard) emptySolutionBoard) (knownSolution Hard)"
    by code_simp
  with Hard show ?thesis by simp
qed

lemma loader_succeeds:
  "\<exists>puzzle sol. generatePuzzle d = Inr (puzzle, sol) \<and> validSolution sol"
proof -
  from solve_finds_solution [OF parsed_shape knownSolution_valid parsed_agrees, of d]
  obtain g' where "solve (fillSolution (PUZZLES d) emptySolutionBoard) = (True, g')"
    "validSolution g'" by blast
  then show ?thesis
    by (simp add: generatePuzzle_def generatePuzzleFrom_def)
qed

text \<open>
  Claim C1.  For each of the three fixed puzzle definitions (easy, medium, hard) the
  loader succeeds, and the solution grid it returns is a completed Sudoku: every cell
  holds an integer from 1 to 9, and every row, every column and every 3x3 box contains
  each of 1 to 9 exactly once.
\<close>

theorem generatePuzzle_solution_valid:
  "\<exists>puzzle sol. generatePuzzle d = Inr (puzzle, sol) \<and> validSolution sol"
  by (rule loader_succeeds)

theorem generatePuzzle_solution_valid_witness:
  "\<exists>puzzle sol. generatePuzzle Hard = Inr (puzzle, sol) \<and> validSolution sol"
  by (rule generatePuzzle_solution_valid)



section \<open>Entering values\<close>


lemma scrub_fields [simp]: "isGiven (scrub cl) = isGiven cl" "isInvalid (scrub cl) = isInvalid cl"
  by (simp_all add: scrub_def)


lemma commitBoard_fields [simp]:
  "board (commitBoard sol nb s) = Some nb"
  "errors (commitBoard sol nb s) = errors s"
  "solution (commitBoard sol nb s) = solution s"
  "selectedCell (commitBoard sol nb s) = selectedCell s"
  "timer (commitBoard sol nb s) = timer s"
  "difficulty (commitBoard sol nb s) = difficulty s"
  by (simp_all add: commitBoard_def)

lemma handleNumberInput_given:
  assumes "board s = Some b" "selectedCell s = Some pos"
    "cellAt b (row pos) (col pos) = Some cl" "isGiven cl"
  shows "handleNumberInput num s = s"
  using assms by (simp add: handleNumberInput_def)










lemma demo_given_cell:
  "cellAt (fillPuzzle (PUZZLES Easy) emptyPuzzleBoard) 0 2
     = Some \<lparr>cellValue = Some (Num 3), isGiven = True, isInvalid = False\<rparr>"
  by code_simp




text \<open>
  Claim C9.  When the solver reports failure on the definition \<^verbatim>\<open>startGame\<close>
  loads, the loader throws, \<^verbatim>\<open>startGame\<close> catches the error and returns: the
  session is left as it was but for the status, which is \<^verbatim>\<open>menu\<close>.
\<close>

theorem startGame_survives_solver_failure:
  assumes "fst (solve (fillSolution baseString emptySolutionBoard)) = False"
  shows "(\<exists>e. generatePuzzleFrom baseString diff = Inl e) \<and>
         startGameFrom baseString diff s = s\<lparr>status := Menu\<rparr>"
proof -
  obtain g where "solve (fillSolution baseString emptySolutionBoard) = (False, g)"
    using assms by (cases "solve (fillSolution baseString emptySolutionBoard)") auto
  then have "\<exists>e. generatePuzzleFrom baseString diff = Inl e"
    by (simp add: generatePuzzleFrom_def)
  then show ?thesis by (auto simp: startGameFrom_def)
qed

theorem startGame_survives_solver_failure_witness:
  "fst (solve (fillSolution stuckDefinition emptySolutionBoard)) = False \<and>
   status (startGameFrom stuckDefinition Easy demoSession) = Menu \<and>
   board (startGameFrom stuckDefinition Easy demoSession) = board demoSession"
proof -
  have failed: "fst (solve (fillSolution stuckDefinition emptySolutionBoard)) = False"
    by code_simp
  from startGame_survives_solver_failure [OF failed, of Easy demoSession] failed
  show ?thesis by simp
qed

text \<open>
  Claim C6.  With a given cell selected, neither entering a value nor erasing, by
  \<^verbatim>\<open>handleNumberInput\<close> itself, the number pad, the erase button or the keyboard,
  changes anything of the session: no cell, not the error count, no other field.
\<close>

theorem given_cell_immutable:
  assumes "board s = Some b" "selectedCell s = Some pos"
    "cellAt b (row pos) (col pos) = Some cl" "isGiven cl"
  shows "handleNumberInput num s = s \<and> eraseClick s = s \<and> numberPadClick i s = s \<and>
         handleKeyDown Backspace s = s \<and> handleKeyDown Delete s = s \<and>
         handleKeyDown (Printable ch) s = s"
proof -
  have "\<And>num. handleNumberInput num s = s"
    using assms by (rule handleNumberInput_given)
  then show ?thesis
    using assms(2)
    by (simp add: eraseClick_def numberPadClick_def handleKeyDown_def split: jsnumber.splits)
qed

theorem given_cell_immutable_witness:
  "handleNumberInput (Some (Num 5)) (demoSession\<lparr>selectedCell := Some \<lparr>row = 0, col = 2\<rparr>\<rparr>)
     = demoSession\<lparr>selectedCell := Some \<lparr>row = 0, col = 2\<rparr>\<rparr> \<and>
   handleNumberInput None (demoSession\<lparr>selectedCell := Some \<lparr>row = 0, col = 2\<rparr>\<rparr>)
     = demoSession\<lparr>selectedCell := Some \<lparr>row = 0, col = 2\<rparr>\<rparr>"
proof -
  let ?s = "demoSession\<lparr>selectedCell := Some \<lparr>row = 0, col = 2\<rparr>\<rparr>"
  have b: "board ?s = Some (fillPuzzle (PUZZLES Easy) emptyPuzzleBoard)"
    and sel: "selectedCell ?s = Some \<lparr>row = 0, col = 2\<rparr>"
    by (simp_all add: demoSession_def)
  have c: "cellAt (fillPuzzle (PUZZLES Easy) emptyPuzzleBoard)
      (row \<lparr>row = 0, col = 2\<rparr>) (col \<lparr>row = 0, col = 2\<rparr>)
     = Some \<lparr>cellValue = Some (Num 3), isGiven = True, isInvalid = False\<rparr>"
    using demo_given_cell by simp
  have g: "isGiven \<lparr>cellValue = Some (Num 3), isGiven = True, isInvalid = False\<rparr>" by simp
  from given_cell_immutable [OF b sel c g, of "Some (Num 5)"]
    given_cell_immutable [OF b sel c g, of None]
  show ?thesis by simp
qed



section \<open>Winning\<close>










section \<open>The invalid flags are never stale\<close>



lemma strictEq_refl: "v \<noteq> NaN \<Longrightarrow> strictEq v v"
  by (cases v) auto











lemma sessionInv_cong:
  "board s' = board s \<Longrightarrow> solution s' = solution s \<Longrightarrow> sessionInv s' = sessionInv s"
  by (simp add: sessionInv_def)












end
